theory Spec2Isabelle
  imports Main "HOL-Library.Sublist"
begin

section \<open>Python string primitives used by diff\_handler.py\<close>

text \<open>
  A Python 3 \<open>str\<close> is modelled as a \<open>string\<close> whose characters are the code points
  U+0000 .. U+00FF, one \<open>char\<close> per code point. The character classes below are the
  ones CPython uses for \<open>str.splitlines\<close>, \<open>str.strip\<close> and the regular expression
  class \<open>\w\<close>, cut down to that range.
\<close>

definition LF :: char where
  "LF = CHR 0x0A"

definition CR :: char where
  "CR = CHR 0x0D"

definition is_linebreak :: "char \<Rightarrow> bool" where
  \<comment> \<open>the line boundaries of \<open>str.splitlines\<close>: \<open>\n \v \f \r \x1c \x1d \x1e \x85\<close>\<close>
  "is_linebreak c = (c \<in> set [CHR 0x0A, CHR 0x0B, CHR 0x0C, CHR 0x0D,
                                 CHR 0x1C, CHR 0x1D, CHR 0x1E, CHR 0x85])"

definition is_space :: "char \<Rightarrow> bool" where
  \<comment> \<open>\<open>str.isspace\<close> on one character, as \<open>str.strip()\<close> uses it\<close>
  "is_space c = (c \<in> set [CHR 0x09, CHR 0x0A, CHR 0x0B, CHR 0x0C, CHR 0x0D,
                            CHR 0x1C, CHR 0x1D, CHR 0x1E, CHR 0x1F, CHR 0x20,
                            CHR 0x85, CHR 0xA0])"

definition is_word :: "char \<Rightarrow> bool" where
  \<comment> \<open>the class \<open>\w\<close> of a \<open>str\<close> pattern: \<open>c.isalnum() or c == '_'\<close>\<close>
  "is_word c = (let n = (of_char c :: nat) in
      (48 \<le> n \<and> n \<le> 57) \<or> (65 \<le> n \<and> n \<le> 90) \<or> n = 95 \<or> (97 \<le> n \<and> n \<le> 122) \<or>
      n = 170 \<or> n = 178 \<or> n = 179 \<or> n = 181 \<or> n = 185 \<or> n = 186 \<or>
      (188 \<le> n \<and> n \<le> 190) \<or> (192 \<le> n \<and> n \<le> 214) \<or> (216 \<le> n \<and> n \<le> 246) \<or>
      248 \<le> n)"

definition skip_break :: "string \<Rightarrow> string" where
  \<comment> \<open>step over the line boundary at the head of the text; \<open>\r\n\<close> counts as one\<close>
  "skip_break rest =
     (case rest of
        [] \<Rightarrow> []
      | c # r \<Rightarrow> (case r of
                    [] \<Rightarrow> []
                  | d # r' \<Rightarrow> if c = CR \<and> d = LF then r' else r))"

function splitlines :: "string \<Rightarrow> string list" where
  "splitlines s =
     (if s = [] then []
      else takeWhile (\<lambda>c. \<not> is_linebreak c) s
             # splitlines (skip_break (dropWhile (\<lambda>c. \<not> is_linebreak c) s)))"
  by pat_completeness auto
termination
proof (relation "measure length")
  show "wf (measure length)" by simp
next
  fix s :: string
  assume ne: "s \<noteq> []"
  let ?r = "dropWhile (\<lambda>c. \<not> is_linebreak c) s"
  have a: "length ?r \<le> length s" by (rule length_dropWhile_le)
  have b: "length (skip_break ?r) \<le> length ?r - 1"
    by (cases ?r) (auto simp: skip_break_def split: list.splits)
  have c: "0 < length s" using ne by simp
  have "length (skip_break ?r) < length s"
  proof (cases "length ?r = 0")
    case True
    with b c show ?thesis by linarith
  next
    case False
    with a b show ?thesis by linarith
  qed
  then show "(skip_break ?r, s) \<in> measure length" by simp
qed

declare splitlines.simps [simp del]

definition strip :: "string \<Rightarrow> string" where
  \<comment> \<open>\<open>str.strip()\<close>: drop leading and trailing whitespace\<close>
  "strip s = rev (dropWhile is_space (rev (dropWhile is_space s)))"

fun str_join :: "string \<Rightarrow> string list \<Rightarrow> string" where
  \<comment> \<open>\<open>sep.join(xs)\<close>\<close>
  "str_join sep [] = []"
| "str_join sep [x] = x"
| "str_join sep (x # y # ys) = x @ sep @ str_join sep (y # ys)"

definition py_slice :: "'a list \<Rightarrow> nat \<Rightarrow> nat \<Rightarrow> 'a list" where
  \<comment> \<open>\<open>xs[a:b]\<close> for \<open>0 \<le> a\<close>, clipped at the end of the list as Python does\<close>
  "py_slice xs a b = take (b - a) (drop a xs)"

definition slice_assign :: "'a list \<Rightarrow> nat \<Rightarrow> nat \<Rightarrow> 'a list \<Rightarrow> 'a list" where
  \<comment> \<open>\<open>xs[a:b] = ys\<close> for \<open>0 \<le> a \<le> b\<close>\<close>
  "slice_assign xs a b ys = take a xs @ ys @ drop b xs"

section \<open>The positional merger: apply\_diff\<close>

fun match_found_at :: "string list \<Rightarrow> string list \<Rightarrow> nat \<Rightarrow> nat list \<Rightarrow> bool" where
  \<comment> \<open>the inner loop over \<open>j\<close>: is some \<open>new_lines[j]\<close> in the window at \<open>i\<close>?\<close>
  "match_found_at original_lines new_lines i [] = False"
| "match_found_at original_lines new_lines i (j # js) =
     (if new_lines ! j \<in> set (py_slice original_lines i (i + length new_lines)) then True
      else match_found_at original_lines new_lines i js)"

fun apply_loop :: "string list \<Rightarrow> string list \<Rightarrow> string list \<Rightarrow> nat list \<Rightarrow> string list" where
  \<comment> \<open>the outer loop over \<open>i\<close>, returning \<open>result_lines\<close>\<close>
  "apply_loop original_lines new_lines result_lines [] = result_lines"
| "apply_loop original_lines new_lines result_lines (i # is) =
     (if match_found_at original_lines new_lines i [0..<length new_lines]
      then slice_assign result_lines i (i + length new_lines) new_lines
      else apply_loop original_lines new_lines result_lines is)"

definition apply_diff :: "string \<Rightarrow> string \<Rightarrow> string" where
  "apply_diff original_code new_content =
     (let original_lines = splitlines original_code;
          new_lines = splitlines new_content;
          result_lines = original_lines
      in str_join [LF]
           (apply_loop original_lines new_lines result_lines [0..<length original_lines]))"

section \<open>The block extractor: extract\_code\_blocks\<close>

text \<open>
  The pattern \<^verbatim>\<open>```(\w+)(?::([^\n]+))?\n(.*?)```\<close> (with \<open>re.DOTALL\<close>) is written with
  backtracking matchers in continuation-passing style, one per regular-expression
  construct: a matcher takes the text at the current position and the continuation that
  matches the rest of the pattern, and returns \<open>None\<close> when every alternative fails.
\<close>

fun re_lit :: "string \<Rightarrow> string \<Rightarrow> (string \<Rightarrow> 'r option) \<Rightarrow> 'r option" where
  \<comment> \<open>a literal string\<close>
  "re_lit [] s k = k s"
| "re_lit (p # ps) [] k = None"
| "re_lit (p # ps) (c # cs) k = (if c = p then re_lit ps cs k else None)"

fun re_star_greedy ::
  "(char \<Rightarrow> bool) \<Rightarrow> string \<Rightarrow> string \<Rightarrow> (string \<Rightarrow> string \<Rightarrow> 'r option) \<Rightarrow> 'r option" where
  \<comment> \<open>\<open>[P]*\<close> in a capture: the longest run first, then shorter ones; \<open>acc\<close> is the text
      captured so far\<close>
  "re_star_greedy P acc [] k = k acc []"
| "re_star_greedy P acc (c # cs) k =
     (if P c then
        (case re_star_greedy P (acc @ [c]) cs k of
           Some r \<Rightarrow> Some r
         | None \<Rightarrow> k acc (c # cs))
      else k acc (c # cs))"

definition re_plus_greedy ::
  "(char \<Rightarrow> bool) \<Rightarrow> string \<Rightarrow> (string \<Rightarrow> string \<Rightarrow> 'r option) \<Rightarrow> 'r option" where
  \<comment> \<open>\<open>[P]+\<close> in a capture\<close>
  "re_plus_greedy P s k =
     (case s of
        [] \<Rightarrow> None
      | c # cs \<Rightarrow> if P c then re_star_greedy P [c] cs k else None)"

fun re_star_lazy ::
  "(char \<Rightarrow> bool) \<Rightarrow> string \<Rightarrow> string \<Rightarrow> (string \<Rightarrow> string \<Rightarrow> 'r option) \<Rightarrow> 'r option" where
  \<comment> \<open>\<open>[P]*?\<close> in a capture: the shortest run first, then longer ones\<close>
  "re_star_lazy P acc [] k = k acc []"
| "re_star_lazy P acc (c # cs) k =
     (case k acc (c # cs) of
        Some r \<Rightarrow> Some r
      | None \<Rightarrow> if P c then re_star_lazy P (acc @ [c]) cs k else None)"

definition re_opt_greedy ::
  "(string \<Rightarrow> (string \<Rightarrow> string \<Rightarrow> 'r option) \<Rightarrow> 'r option) \<Rightarrow>
   string \<Rightarrow> (string option \<Rightarrow> string \<Rightarrow> 'r option) \<Rightarrow> 'r option" where
  \<comment> \<open>\<open>(?:g)?\<close> around a capturing matcher \<open>g\<close>: with the group first, then without it
      (the capture is then \<open>None\<close>)\<close>
  "re_opt_greedy g s k =
     (case g s (\<lambda>x rest. k (Some x) rest) of
        Some r \<Rightarrow> Some r
      | None \<Rightarrow> k None s)"

definition fence :: string where
  "fence = ''```''"

definition code_block_pattern :: "string \<Rightarrow> (string \<times> string option \<times> string \<times> string) option" where
  \<comment> \<open>a match of the pattern at the head of the text: groups 1, 2, 3 and the text after
      the match\<close>
  "code_block_pattern s =
     re_lit fence s (\<lambda>s1.
     re_plus_greedy is_word s1 (\<lambda>g1 s2.
     re_opt_greedy (\<lambda>t k. re_lit '':'' t (\<lambda>t1. re_plus_greedy (\<lambda>c. c \<noteq> LF) t1 k)) s2 (\<lambda>g2 s3.
     re_lit [LF] s3 (\<lambda>s4.
     re_star_lazy (\<lambda>c. True) [] s4 (\<lambda>g3 s5.
     re_lit fence s5 (\<lambda>s6. Some (g1, g2, g3, s6)))))))"

definition header :: "string \<Rightarrow> string option \<Rightarrow> string" where
  \<comment> \<open>the text a match starts with, given groups 1 and 2: the opening fence, the
      language, the optional colon and path, and the newline\<close>
  "header g1 g2 = fence @ g1 @ (case g2 of None \<Rightarrow> [] | Some p \<Rightarrow> CHR '':'' # p) @ [LF]"

fun finditer :: "nat \<Rightarrow> string \<Rightarrow> (string \<times> string option \<times> string) list" where
  \<comment> \<open>\<open>re.finditer\<close>: the text is scanned left to right and a match is tried at every
      position outside the previous match; \<open>skip\<close> counts the characters of the previous
      match still ahead. The pattern matches at least eight characters, so nothing is
      tried on the empty suffix.\<close>
  "finditer skip [] = []"
| "finditer (Suc n) (c # cs) = finditer n cs"
| "finditer 0 (c # cs) =
     (case code_block_pattern (c # cs) of
        None \<Rightarrow> finditer 0 cs
      | Some (g1, g2, g3, rest) \<Rightarrow> (g1, g2, g3) # finditer (length cs - length rest) cs)"

record CodeBlock =
  language :: string
  filepath :: "string option"
  content :: string

definition extract_code_blocks :: "string \<Rightarrow> CodeBlock list" where
  "extract_code_blocks ai_output =
     map (\<lambda>(g1, g2, g3). \<lparr>language = g1, filepath = g2, content = strip g3\<rparr>)
       (finditer 0 ai_output)"

section \<open>The marker segmenter: parse\_code\_block\<close>

type_synonym change = "string \<times> string \<times> int"

definition context_markers :: "string list" where
  "context_markers =
     [''// existing code...'', ''// ...'', ''# existing code...'', ''# ...'', ''...'',
      ''# rest of the file'', ''// rest of the file'']"

fun parse_loop ::
  "string list \<Rightarrow> change list \<Rightarrow> string list \<Rightarrow> bool \<Rightarrow> change list \<times> string list" where
  \<comment> \<open>the loop over the lines; the state is \<open>changes\<close>, \<open>current_section\<close> and
      \<open>in_change_section\<close>\<close>
  "parse_loop [] changes current_section in_change_section = (changes, current_section)"
| "parse_loop (line # lines) changes current_section in_change_section =
     (let stripped = strip line in
      if stripped \<in> set context_markers then
        (if in_change_section \<and> current_section \<noteq> [] then
           parse_loop lines (changes @ [(''replace'', str_join [LF] current_section, 3)]) [] False
         else parse_loop lines changes current_section False)
      else parse_loop lines changes (current_section @ [line]) True)"

definition parse_code_block :: "string \<Rightarrow> change list" where
  "parse_code_block block_content =
     (case parse_loop (splitlines block_content) [] [] False of
        (changes, current_section) \<Rightarrow>
          if current_section \<noteq> [] then
            changes @ [(''replace'', str_join [LF] current_section, 3)]
          else changes)"

section \<open>The file reconciler: process\_ai\_output\<close>

type_synonym files = "string \<rightharpoonup> string"

fun apply_changes :: "string \<Rightarrow> change list \<Rightarrow> string" where
  \<comment> \<open>the loop over the change sections of one block\<close>
  "apply_changes current_content [] = current_content"
| "apply_changes current_content ((action, new_content, context_lines) # changes) =
     (if action = ''replace'' then apply_changes (apply_diff current_content new_content) changes
      else apply_changes current_content changes)"

definition process_block :: "files \<Rightarrow> CodeBlock \<Rightarrow> files" where
  \<comment> \<open>the body of the loop over the code blocks, on the dictionary \<open>modified_files\<close>\<close>
  "process_block modified_files block =
     (case filepath block of
        None \<Rightarrow> modified_files
      | Some path \<Rightarrow>
          if path = [] then modified_files
          else (case modified_files path of
                  None \<Rightarrow> modified_files(path \<mapsto> content block)
                | Some original_content \<Rightarrow>
                    modified_files(path \<mapsto>
                      apply_changes original_content (parse_code_block (content block)))))"

definition process_ai_output :: "string \<Rightarrow> files \<Rightarrow> files" where
  \<comment> \<open>the dictionary returned, as a function of the contents of the dictionary passed in\<close>
  "process_ai_output ai_output files_in =
     foldl process_block files_in (extract_code_blocks ai_output)"

subsection \<open>The same function on a store of dictionary objects\<close>

text \<open>
  Python passes dictionaries by reference. A store is the list of the dictionary objects
  allocated so far and a reference is an index into it; \<open>files.copy()\<close> allocates a new
  object, and each assignment \<open>modified_files[path] = ...\<close> updates the object that
  \<open>modified_files\<close> refers to.
\<close>

type_synonym store = "files list"

definition dict_copy :: "store \<Rightarrow> nat \<Rightarrow> nat \<times> store" where
  "dict_copy h r = (length h, h @ [h ! r])"

definition process_ai_output_store :: "string \<Rightarrow> nat \<Rightarrow> store \<Rightarrow> nat \<times> store" where
  "process_ai_output_store ai_output files_ref h =
     (case dict_copy h files_ref of
        (modified_files, h1) \<Rightarrow>
          (modified_files,
           foldl (\<lambda>h' block. h'[modified_files := process_block (h' ! modified_files) block])
             h1 (extract_code_blocks ai_output)))"

section \<open>Texts that splitting and joining leave alone\<close>

definition lf_normal :: "string \<Rightarrow> bool" where
  \<comment> \<open>the only line boundary in the text is \<open>\n\<close>, and the text does not end with one\<close>
  "lf_normal s =
     (list_all (\<lambda>c. \<not> is_linebreak c \<or> c = LF) s \<and> (s = [] \<or> last s \<noteq> LF))"

section \<open>Lines\<close>

lemma splitlines_Nil: "splitlines [] = []"
  by (simp add: splitlines.simps)

lemma splitlines_nonempty:
  "s \<noteq> [] \<Longrightarrow> splitlines s =
     takeWhile (\<lambda>c. \<not> is_linebreak c) s
       # splitlines (skip_break (dropWhile (\<lambda>c. \<not> is_linebreak c) s))"
  by (subst splitlines.simps) simp

lemma splitlines_eq_Nil_iff: "splitlines s = [] \<longleftrightarrow> s = []"
  by (cases "s = []") (simp_all add: splitlines_Nil splitlines_nonempty)


lemma str_join_Cons:
  "ys \<noteq> [] \<Longrightarrow> str_join sep (x # ys) = x @ sep @ str_join sep ys"
  by (cases ys) simp_all

lemma LF_neq_CR: "LF \<noteq> CR"
  by (simp add: LF_def CR_def)

lemma join_splitlines:
  "lf_normal s \<Longrightarrow> str_join [LF] (splitlines s) = s"
proof (induction s rule: splitlines.induct)
  case (1 s)
  let ?nb = "\<lambda>c. \<not> is_linebreak c"
  show ?case
  proof (cases "s = []")
    case True
    then show ?thesis by (simp add: splitlines_Nil)
  next
    case False
    have split: "s = takeWhile ?nb s @ dropWhile ?nb s" by simp
    show ?thesis
    proof (cases "dropWhile ?nb s")
      case Nil
      then have tw: "takeWhile ?nb s = s" using split by (metis append_Nil2)
      have sb: "skip_break (dropWhile ?nb s) = []"
        by (simp only: Nil skip_break_def list.case)
      have "splitlines s = [s]"
        by (simp only: splitlines_nonempty [OF False] tw sb splitlines_Nil)
      then show ?thesis by simp
    next
      case (Cons c r)
      then have "is_linebreak c" using hd_dropWhile [of ?nb s] by auto
      moreover have "c \<in> set s" using Cons by (metis list.set_intros(1) set_dropWhileD)
      ultimately have c: "c = LF" using "1.prems" by (auto simp: lf_normal_def list_all_iff)
      have s_eq: "s = takeWhile ?nb s @ LF # r" using split Cons c by simp
      have rne: "r \<noteq> []"
      proof
        assume "r = []"
        with s_eq have "last s = LF" by (metis last_snoc)
        with "1.prems" False show False by (simp add: lf_normal_def)
      qed
      have sb: "skip_break (dropWhile ?nb s) = r"
        using Cons c rne LF_neq_CR by (cases r) (simp_all add: skip_break_def)
      have "set r \<subseteq> set s" by (subst s_eq) auto
      moreover have "last r = last s" using s_eq rne by (metis last_appendR last_ConsR list.distinct(1))
      ultimately have "lf_normal r" using "1.prems" rne False
        by (auto simp: lf_normal_def list_all_iff)
      with "1.IH" False sb have ih: "str_join [LF] (splitlines r) = r" by simp
      have "splitlines r \<noteq> []" using rne by (simp add: splitlines_eq_Nil_iff)
      then have "str_join [LF] (splitlines s) = takeWhile ?nb s @ [LF] @ r"
        using False sb ih by (simp add: splitlines_nonempty str_join_Cons)
      with s_eq show ?thesis by simp
    qed
  qed
qed

lemma match_found_at_iff:
  "match_found_at ol nl i js \<longleftrightarrow>
     (\<exists>j \<in> set js. nl ! j \<in> set (py_slice ol i (i + length nl)))"
  by (induction js) auto

lemma match_found_at_range:
  "match_found_at ol nl i [0..<length nl] \<longleftrightarrow>
     (\<exists>l \<in> set nl. l \<in> set (py_slice ol i (i + length nl)))"
proof -
  have "(!) nl ` set [0..<length nl] = set nl"
    by (metis map_nth set_map)
  then show ?thesis
    unfolding match_found_at_iff by (metis (no_types, lifting) image_iff)
qed

lemma apply_loop_find:
  "apply_loop ol nl res is =
     (case find (\<lambda>i. match_found_at ol nl i [0..<length nl]) is of
        None \<Rightarrow> res
      | Some i \<Rightarrow> slice_assign res i (i + length nl) nl)"
  by (induction "is") auto


lemma apply_loop_no_match:
  assumes "\<forall>i \<in> set is. \<not> match_found_at ol nl i [0..<length nl]"
  shows "apply_loop ol nl res is = res"
  using assms by (induction "is") auto

lemma apply_loop_first_match:
  assumes "i < m" and "match_found_at ol nl i [0..<length nl]"
      and "\<forall>k<i. \<not> match_found_at ol nl k [0..<length nl]"
  shows "apply_loop ol nl res [0..<m] = slice_assign res i (i + length nl) nl"
proof -
  have "find (\<lambda>i. match_found_at ol nl i [0..<length nl]) [0..<m] = Some i"
    using assms by (auto simp: find_Some_iff intro!: exI [of _ i])
  then show ?thesis by (simp add: apply_loop_find)
qed


section \<open>Segments\<close>

lemma parse_loop_no_marker:
  "\<forall>l \<in> set lines. strip l \<notin> set context_markers \<Longrightarrow>
   parse_loop lines changes current_section in_change_section
     = (changes, current_section @ lines)"
  by (induction lines arbitrary: current_section in_change_section) (simp_all add: Let_def)

lemma strip_fixed_last:
  assumes "strip s = s" and "s \<noteq> []"
  shows "\<not> is_space (last s)"
proof -
  let ?d = "dropWhile is_space (rev (dropWhile is_space s))"
  from assms have s: "s = rev ?d" by (simp add: strip_def)
  have ne: "?d \<noteq> []"
  proof
    assume "?d = []"
    then have "rev ?d = []" by (simp only: rev.simps)
    with s assms(2) show False by simp
  qed
  then have "\<not> is_space (hd ?d)" by (rule hd_dropWhile)
  moreover have "last s = hd ?d" using s ne by (metis last_rev)
  ultimately show ?thesis by simp
qed

lemma LF_is_space: "is_space LF"
  by (simp add: is_space_def LF_def)

section \<open>Matches of the pattern\<close>

lemma re_lit_SomeD:
  "re_lit p s k = Some r \<Longrightarrow> \<exists>rest. s = p @ rest \<and> k rest = Some r"
  by (induction p s k rule: re_lit.induct) (auto split: if_splits)

lemma re_star_greedy_SomeD:
  "re_star_greedy P acc s k = Some r \<Longrightarrow>
   \<exists>m rest. s = m @ rest \<and> list_all P m \<and> k (acc @ m) rest = Some r"
proof (induction s arbitrary: acc)
  case Nil
  then show ?case by simp
next
  case (Cons c cs)
  show ?case
  proof (cases "P c \<and> re_star_greedy P (acc @ [c]) cs k = Some r")
    case True
    with Cons.IH [of "acc @ [c]"] obtain m rest
      where "cs = m @ rest" "list_all P m" "k (acc @ c # m) rest = Some r"
      by auto
    with True show ?thesis
      by (intro exI [of _ "c # m"] exI [of _ rest]) simp
  next
    case False
    with Cons.prems have "k acc (c # cs) = Some r"
      by (auto split: if_splits option.splits)
    then show ?thesis
      by (intro exI [of _ "[]"] exI [of _ "c # cs"]) simp
  qed
qed

lemma re_plus_greedy_SomeD:
  assumes "re_plus_greedy P s k = Some r"
  shows "\<exists>m rest. m \<noteq> [] \<and> s = m @ rest \<and> list_all P m \<and> k m rest = Some r"
proof (cases s)
  case Nil
  with assms show ?thesis by (simp add: re_plus_greedy_def)
next
  case (Cons c cs)
  with assms have c: "P c" and "re_star_greedy P [c] cs k = Some r"
    by (auto simp: re_plus_greedy_def split: if_splits)
  from re_star_greedy_SomeD [OF this(2)] obtain m rest
    where "cs = m @ rest" "list_all P m" "k (c # m) rest = Some r"
    by auto
  with Cons c show ?thesis
    by (intro exI [of _ "c # m"] exI [of _ rest]) simp
qed

lemma re_star_lazy_SomeD:
  "re_star_lazy P acc s k = Some r \<Longrightarrow>
   \<exists>m rest. s = m @ rest \<and> list_all P m \<and> k (acc @ m) rest = Some r"
proof (induction s arbitrary: acc)
  case Nil
  then show ?case by simp
next
  case (Cons c cs)
  show ?case
  proof (cases "k acc (c # cs) = Some r")
    case True
    then show ?thesis
      by (intro exI [of _ "[]"] exI [of _ "c # cs"]) simp
  next
    case False
    with Cons.prems have "P c" and "re_star_lazy P (acc @ [c]) cs k = Some r"
      by (auto split: if_splits option.splits)
    with Cons.IH [of "acc @ [c]"] obtain m rest
      where "cs = m @ rest" "list_all P m" "k (acc @ c # m) rest = Some r"
      by auto
    with \<open>P c\<close> show ?thesis
      by (intro exI [of _ "c # m"] exI [of _ rest]) simp
  qed
qed

lemma re_opt_greedy_SomeD:
  "re_opt_greedy g s k = Some r \<Longrightarrow>
   g s (\<lambda>x rest. k (Some x) rest) = Some r \<or> k None s = Some r"
  by (auto simp: re_opt_greedy_def split: option.splits)

lemma code_block_pattern_SomeD:
  assumes "code_block_pattern s = Some (g1, g2, g3, rest)"
  shows "s = header g1 g2 @ g3 @ fence @ rest \<and> g1 \<noteq> [] \<and> list_all is_word g1 \<and>
         g2 \<noteq> Some []"
proof -
  from assms [unfolded code_block_pattern_def] obtain s1 where
    s: "s = fence @ s1" and
    1: "re_plus_greedy is_word s1 (\<lambda>g1 s2.
          re_opt_greedy (\<lambda>t k. re_lit '':'' t (\<lambda>t1. re_plus_greedy (\<lambda>c. c \<noteq> LF) t1 k)) s2 (\<lambda>g2 s3.
          re_lit [LF] s3 (\<lambda>s4.
          re_star_lazy (\<lambda>c. True) [] s4 (\<lambda>g3 s5.
          re_lit fence s5 (\<lambda>s6. Some (g1, g2, g3, s6)))))) = Some (g1, g2, g3, rest)"
    by (blast dest: re_lit_SomeD)
  from re_plus_greedy_SomeD [OF 1] obtain w s2 where
    w: "w \<noteq> []" "s1 = w @ s2" "list_all is_word w" and
    2: "re_opt_greedy (\<lambda>t k. re_lit '':'' t (\<lambda>t1. re_plus_greedy (\<lambda>c. c \<noteq> LF) t1 k)) s2 (\<lambda>g2 s3.
          re_lit [LF] s3 (\<lambda>s4.
          re_star_lazy (\<lambda>c. True) [] s4 (\<lambda>g3 s5.
          re_lit fence s5 (\<lambda>s6. Some (w, g2, g3, s6))))) = Some (g1, g2, g3, rest)"
    by blast
  let ?k = "\<lambda>g2 s3. re_lit [LF] s3 (\<lambda>s4.
          re_star_lazy (\<lambda>c. True) [] s4 (\<lambda>g3 s5.
          re_lit fence s5 (\<lambda>s6. Some (w, g2, g3, s6))))"
  have tail: "s3 = [LF] @ g3 @ fence @ rest \<and> w = g1 \<and> x = g2"
    if "?k x s3 = Some (g1, g2, g3, rest)" for x s3
  proof -
    from re_lit_SomeD [OF that] obtain s4 where
      s3: "s3 = [LF] @ s4" and
      3: "re_star_lazy (\<lambda>c. True) [] s4 (\<lambda>g3 s5.
            re_lit fence s5 (\<lambda>s6. Some (w, x, g3, s6))) = Some (g1, g2, g3, rest)"
      by blast
    from re_star_lazy_SomeD [OF 3] obtain b s5 where
      s4: "s4 = b @ s5" and
      4: "re_lit fence s5 (\<lambda>s6. Some (w, x, [] @ b, s6)) = Some (g1, g2, g3, rest)"
      by blast
    from re_lit_SomeD [OF 4] obtain s6 where
      "s5 = fence @ s6" "Some (w, x, [] @ b, s6) = Some (g1, g2, g3, rest)"
      by blast
    with s3 s4 show ?thesis by simp
  qed
  from re_opt_greedy_SomeD [OF 2] show ?thesis
  proof
    assume "re_lit '':'' s2 (\<lambda>t1. re_plus_greedy (\<lambda>c. c \<noteq> LF) t1 (\<lambda>x rest. ?k (Some x) rest))
              = Some (g1, g2, g3, rest)"
    from re_lit_SomeD [OF this] obtain t1 where
      s2: "s2 = '':'' @ t1" and
      5: "re_plus_greedy (\<lambda>c. c \<noteq> LF) t1 (\<lambda>x rest. ?k (Some x) rest) = Some (g1, g2, g3, rest)"
      by blast
    from re_plus_greedy_SomeD [OF 5] obtain p s3 where
      p: "p \<noteq> []" "t1 = p @ s3" and 6: "?k (Some p) s3 = Some (g1, g2, g3, rest)"
      by blast
    from tail [OF 6] s s2 p w show ?thesis
      by (auto simp: header_def)
  next
    assume "?k None s2 = Some (g1, g2, g3, rest)"
    from tail [OF this] s w show ?thesis
      by (auto simp: header_def)
  qed
qed

lemma finditer_sound:
  "(g1, g2, g3) \<in> set (finditer n s) \<Longrightarrow>
   (\<exists>pre post. s = pre @ header g1 g2 @ g3 @ fence @ post) \<and> g1 \<noteq> [] \<and>
   list_all is_word g1 \<and> g2 \<noteq> Some []"
proof (induction n s rule: finditer.induct)
  case (1 skip)
  then show ?case by simp
next
  case (2 n c cs)
  then have "(\<exists>pre post. cs = pre @ header g1 g2 @ g3 @ fence @ post) \<and> g1 \<noteq> [] \<and>
     list_all is_word g1 \<and> g2 \<noteq> Some []" by simp
  then obtain pre post where "cs = pre @ header g1 g2 @ g3 @ fence @ post"
    and r: "g1 \<noteq> []" "list_all is_word g1" "g2 \<noteq> Some []" by blast
  then have "c # cs = (c # pre) @ header g1 g2 @ g3 @ fence @ post" by simp
  with r show ?case by blast
next
  case (3 c cs)
  show ?case
  proof (cases "code_block_pattern (c # cs)")
    case None
    with 3 have "(\<exists>pre post. cs = pre @ header g1 g2 @ g3 @ fence @ post) \<and> g1 \<noteq> [] \<and>
       list_all is_word g1 \<and> g2 \<noteq> Some []" by simp
    then obtain pre post where "cs = pre @ header g1 g2 @ g3 @ fence @ post"
      and r: "g1 \<noteq> []" "list_all is_word g1" "g2 \<noteq> Some []" by blast
    then have "c # cs = (c # pre) @ header g1 g2 @ g3 @ fence @ post" by simp
    with r show ?thesis by blast
  next
    case (Some m)
    obtain h1 h2 h3 rest where m: "m = (h1, h2, h3, rest)" by (cases m) auto
    from "3.prems" Some m
    consider "(g1, g2, g3) = (h1, h2, h3)"
      | "(g1, g2, g3) \<in> set (finditer (length cs - length rest) cs)"
      by auto
    then show ?thesis
    proof cases
      case 1
      with code_block_pattern_SomeD [of "c # cs" h1 h2 h3 rest] Some m
      have "c # cs = [] @ header g1 g2 @ g3 @ fence @ rest" and
        r: "g1 \<noteq> []" "list_all is_word g1" "g2 \<noteq> Some []" by auto
      then show ?thesis by blast
    next
      case 2
      with "3.IH"(2) [OF Some m [symmetric] refl refl]
      have "(\<exists>pre post. cs = pre @ header g1 g2 @ g3 @ fence @ post) \<and> g1 \<noteq> [] \<and>
       list_all is_word g1 \<and> g2 \<noteq> Some []" by simp
      then obtain pre post where "cs = pre @ header g1 g2 @ g3 @ fence @ post"
        and r: "g1 \<noteq> []" "list_all is_word g1" "g2 \<noteq> Some []" by blast
      then have "c # cs = (c # pre) @ header g1 g2 @ g3 @ fence @ post" by simp
      with r show ?thesis by blast
    qed
  qed
qed

section \<open>The loop over the code blocks\<close>

lemma process_block_other:
  "filepath block \<noteq> Some p \<Longrightarrow> process_block m block p = m p"
  by (auto simp: process_block_def split: option.splits)

lemma process_block_dom:
  "dom m \<subseteq> dom (process_block m block)"
  by (auto simp: process_block_def split: option.splits)

lemma process_blocks_other:
  "\<forall>b \<in> set bs. filepath b \<noteq> Some p \<Longrightarrow> foldl process_block m bs p = m p"
  by (induction bs arbitrary: m) (simp_all add: process_block_other)

lemma process_blocks_dom:
  "dom m \<subseteq> dom (foldl process_block m bs)"
proof (induction bs arbitrary: m)
  case Nil
  then show ?case by simp
next
  case (Cons b bs)
  have "dom m \<subseteq> dom (process_block m b)" by (rule process_block_dom)
  also have "\<dots> \<subseteq> dom (foldl process_block (process_block m b) bs)" by (rule Cons.IH)
  finally show ?case by simp
qed

lemma process_block_new:
  "filepath block = Some path \<Longrightarrow> path \<noteq> [] \<Longrightarrow> m path = None \<Longrightarrow>
   process_block m block = m(path \<mapsto> content block)"
  by (simp add: process_block_def)

lemma extract_code_blocks_sound:
  assumes "b \<in> set (extract_code_blocks ai_output)"
  shows "(\<exists>pre body post.
            ai_output = pre @ header (language b) (filepath b) @ body @ fence @ post \<and>
            content b = strip body) \<and>
         language b \<noteq> [] \<and> list_all is_word (language b) \<and> filepath b \<noteq> Some []"
proof -
  from assms obtain g1 g2 g3 where
    m: "(g1, g2, g3) \<in> set (finditer 0 ai_output)" and
    b: "b = \<lparr>language = g1, filepath = g2, content = strip g3\<rparr>"
    by (auto simp: extract_code_blocks_def)
  from finditer_sound [OF m] b show ?thesis by auto
qed

lemma store_loop:
  "r < length h \<Longrightarrow>
   foldl (\<lambda>h' block. h'[r := f (h' ! r) block]) h bs = h[r := foldl f (h ! r) bs]"
  by (induction bs arbitrary: h) simp_all

section \<open>Claims about the positional merger\<close>

text \<open>
  C1 (first-match merge). \<open>apply_diff\<close> splices at the first index \<open>i\<close> of the original's
  lines such that some line of the segment occurs in the window of original lines
  \<open>[i, i + len(segment))\<close>: the lines of that window are replaced by all the lines of the
  segment, whatever a later index would match, and the result is the \<open>\n\<close>-join of the
  spliced lines. In particular \<open>apply_diff("A\nB\nA\nC", "A\nX")\<close> is \<open>"A\nX\nA\nC"\<close>.
\<close>

theorem apply_diff_first_match:
  assumes "i < length (splitlines original_code)"
      and "\<exists>l \<in> set (splitlines new_content).
             l \<in> set (py_slice (splitlines original_code) i (i + length (splitlines new_content)))"
      and "\<forall>k<i. \<not> (\<exists>l \<in> set (splitlines new_content).
             l \<in> set (py_slice (splitlines original_code) k (k + length (splitlines new_content))))"
  shows "apply_diff original_code new_content =
           str_join [LF]
             (take i (splitlines original_code) @ splitlines new_content
                @ drop (i + length (splitlines new_content)) (splitlines original_code))"
proof -
  let ?ol = "splitlines original_code" and ?nl = "splitlines new_content"
  have "apply_loop ?ol ?nl ?ol [0..<length ?ol] = slice_assign ?ol i (i + length ?nl) ?nl"
    using assms by (intro apply_loop_first_match) (simp_all add: match_found_at_range)
  then show ?thesis by (simp add: apply_diff_def slice_assign_def Let_def)
qed

theorem apply_diff_first_match_witness:
  "apply_diff ''A\<newline>B\<newline>A\<newline>C'' ''A\<newline>X'' = ''A\<newline>X\<newline>A\<newline>C'' \<and>
   apply_diff ''p\<newline>q\<newline>A\<newline>B\<newline>B'' ''B\<newline>Z'' = ''p\<newline>q\<newline>B\<newline>Z\<newline>B''"
proof -
  have o1: "splitlines ''A\<newline>B\<newline>A\<newline>C'' = [''A'', ''B'', ''A'', ''C'']"
    and n1: "splitlines ''A\<newline>X'' = [''A'', ''X'']"
    and o2: "splitlines ''p\<newline>q\<newline>A\<newline>B\<newline>B'' = [''p'', ''q'', ''A'', ''B'', ''B'']"
    and n2: "splitlines ''B\<newline>Z'' = [''B'', ''Z'']"
    by code_simp+
  have "apply_diff ''A\<newline>B\<newline>A\<newline>C'' ''A\<newline>X'' = ''A\<newline>X\<newline>A\<newline>C''"
    using apply_diff_first_match [of 0 "''A\<newline>B\<newline>A\<newline>C''" "''A\<newline>X''"]
    by (simp add: o1 n1 py_slice_def LF_def)
  moreover have "\<forall>k<2. \<not> (\<exists>l \<in> set [''B'', ''Z''].
             l \<in> set (py_slice [''p'', ''q'', ''A'', ''B'', ''B''] k (k + 2)))"
    by (auto dest!: less_2_cases simp: py_slice_def)
  then have "apply_diff ''p\<newline>q\<newline>A\<newline>B\<newline>B'' ''B\<newline>Z'' = ''p\<newline>q\<newline>B\<newline>Z\<newline>B''"
    using apply_diff_first_match [of 2 "''p\<newline>q\<newline>A\<newline>B\<newline>B''" "''B\<newline>Z''"]
    by (simp add: o2 n2 py_slice_def LF_def)
  ultimately show ?thesis by simp
qed


text \<open>
  C3 (idempotence of the merger), as the code has it. When the lines of the segment occur
  as a contiguous run of the original's lines at an index \<open>k\<close> and no window at an earlier
  index holds a line of the segment, \<open>apply_diff\<close> returns the \<open>\n\<close>-join of the original's
  lines; that is the original content itself when its only line boundary is \<open>\n\<close> and it
  does not end with one. A run that starts later than the first matching window is not
  left in place: the counterexample has the run at index 1 and the splice at index 0.
\<close>

theorem apply_diff_idempotent_at_first_match:
  assumes run: "py_slice (splitlines original_code) k (k + length (splitlines new_content))
                  = splitlines new_content"
      and first: "\<forall>i<k. \<not> (\<exists>l \<in> set (splitlines new_content).
                     l \<in> set (py_slice (splitlines original_code) i
                                (i + length (splitlines new_content))))"
  shows "apply_diff original_code new_content = str_join [LF] (splitlines original_code) \<and>
         (lf_normal original_code \<longrightarrow> apply_diff original_code new_content = original_code)"
proof -
  let ?ol = "splitlines original_code" and ?nl = "splitlines new_content"
  have "apply_loop ?ol ?nl ?ol [0..<length ?ol] = ?ol"
  proof (cases "?nl = []")
    case True
    then show ?thesis
      by (intro apply_loop_no_match) (simp add: match_found_at_range)
  next
    case False
    from run have tk: "take (length ?nl) (drop k ?ol) = ?nl"
      by (simp add: py_slice_def)
    with False have k: "k < length ?ol"
      by (metis drop_all leI take_Nil)
    have "hd ?nl \<in> set ?nl" using False by simp
    then have m: "match_found_at ?ol ?nl k [0..<length ?nl]"
      unfolding match_found_at_range using run by auto
    have e: "drop (k + length ?nl) ?ol = drop (length ?nl) (drop k ?ol)"
      by (simp add: add.commute)
    have "apply_loop ?ol ?nl ?ol [0..<length ?ol] = slice_assign ?ol k (k + length ?nl) ?nl"
      using k m first by (intro apply_loop_first_match) (simp_all add: match_found_at_range)
    also have "\<dots> = take k ?ol @ (?nl @ drop (length ?nl) (drop k ?ol))"
      by (simp only: slice_assign_def e)
    also have "?nl @ drop (length ?nl) (drop k ?ol) = drop k ?ol"
      by (metis tk append_take_drop_id)
    also have "take k ?ol @ drop k ?ol = ?ol"
      by (rule append_take_drop_id)
    finally show ?thesis .
  qed
  then have "apply_diff original_code new_content = str_join [LF] ?ol"
    by (simp add: apply_diff_def Let_def)
  then show ?thesis by (simp add: join_splitlines)
qed

theorem apply_diff_idempotent_at_first_match_witness:
  "apply_diff ''A\<newline>B\<newline>C'' ''A\<newline>B'' = ''A\<newline>B\<newline>C'' \<and>
   apply_diff ''X\<newline>A\<newline>A'' ''A'' = ''X\<newline>A\<newline>A''"
proof -
  have o1: "splitlines ''A\<newline>B\<newline>C'' = [''A'', ''B'', ''C'']"
    and n1: "splitlines ''A\<newline>B'' = [''A'', ''B'']"
    and o2: "splitlines ''X\<newline>A\<newline>A'' = [''X'', ''A'', ''A'']"
    and n2: "splitlines ''A'' = [''A'']"
    by code_simp+
  have l1: "lf_normal ''A\<newline>B\<newline>C''" and l2: "lf_normal ''X\<newline>A\<newline>A''"
    by (simp_all add: lf_normal_def is_linebreak_def LF_def)
  have "apply_diff ''A\<newline>B\<newline>C'' ''A\<newline>B'' = ''A\<newline>B\<newline>C''"
    using apply_diff_idempotent_at_first_match [of "''A\<newline>B\<newline>C''" 0 "''A\<newline>B''"] l1
    by (simp add: o1 n1 py_slice_def LF_def)
  moreover have "apply_diff ''X\<newline>A\<newline>A'' ''A'' = ''X\<newline>A\<newline>A''"
    using apply_diff_idempotent_at_first_match [of "''X\<newline>A\<newline>A''" 1 "''A''"] l2
    by (simp add: o2 n2 py_slice_def LF_def)
  ultimately show ?thesis by simp
qed

theorem apply_diff_idempotent_counterexample:
  "py_slice (splitlines ''X\<newline>A\<newline>B'') 1 (1 + length (splitlines ''A\<newline>B''))
     = splitlines ''A\<newline>B'' \<and>
   apply_diff ''X\<newline>A\<newline>B'' ''A\<newline>B'' = ''A\<newline>B\<newline>B'' \<and>
   apply_diff ''X\<newline>A\<newline>B'' ''A\<newline>B'' \<noteq> ''X\<newline>A\<newline>B''"
proof -
  have o: "splitlines ''X\<newline>A\<newline>B'' = [''X'', ''A'', ''B'']"
    and n: "splitlines ''A\<newline>B'' = [''A'', ''B'']"
    by code_simp+
  have r: "apply_diff ''X\<newline>A\<newline>B'' ''A\<newline>B'' = ''A\<newline>B\<newline>B''"
    by code_simp
  show ?thesis by (simp add: o n r py_slice_def)
qed


text \<open>
  C4 (no match), as the code has it. When no index \<open>i\<close> has a line of the segment in the
  window of original lines \<open>[i, i + len(segment))\<close>, \<open>apply_diff\<close> returns the \<open>\n\<close>-join of
  the original's lines, with nothing spliced or appended; that is the original content
  itself when its only line boundary is \<open>\n\<close> and it does not end with one. The
  counterexample is an original with a trailing newline, which comes back without it.
\<close>

theorem apply_diff_no_match:
  assumes "\<forall>i<length (splitlines original_code).
             \<not> (\<exists>l \<in> set (splitlines new_content).
                  l \<in> set (py_slice (splitlines original_code) i
                             (i + length (splitlines new_content))))"
  shows "apply_diff original_code new_content = str_join [LF] (splitlines original_code) \<and>
         (lf_normal original_code \<longrightarrow> apply_diff original_code new_content = original_code)"
proof -
  let ?ol = "splitlines original_code" and ?nl = "splitlines new_content"
  have "apply_loop ?ol ?nl ?ol [0..<length ?ol] = ?ol"
    using assms by (intro apply_loop_no_match) (simp add: match_found_at_range)
  then have "apply_diff original_code new_content = str_join [LF] ?ol"
    by (simp add: apply_diff_def Let_def)
  then show ?thesis by (simp add: join_splitlines)
qed

theorem apply_diff_no_match_witness:
  "apply_diff ''a\<newline>b'' ''x'' = ''a\<newline>b''"
proof -
  have o: "splitlines ''a\<newline>b'' = [''a'', ''b'']" and n: "splitlines ''x'' = [''x'']"
    by code_simp+
  have nm: "\<forall>i<length (splitlines ''a\<newline>b'').
             \<not> (\<exists>l \<in> set (splitlines ''x'').
                  l \<in> set (py_slice (splitlines ''a\<newline>b'') i (i + length (splitlines ''x''))))"
    by (auto simp: o n py_slice_def less_Suc_eq)
  have "lf_normal ''a\<newline>b''"
    by (simp add: lf_normal_def is_linebreak_def LF_def)
  with apply_diff_no_match [OF nm] show ?thesis by blast
qed

theorem apply_diff_no_match_counterexample:
  "\<not> (\<exists>i<length (splitlines ''a\<newline>''). \<exists>l \<in> set (splitlines ''x'').
        l \<in> set (py_slice (splitlines ''a\<newline>'') i (i + length (splitlines ''x'')))) \<and>
   apply_diff ''a\<newline>'' ''x'' = ''a'' \<and>
   apply_diff ''a\<newline>'' ''x'' \<noteq> ''a\<newline>''"
proof -
  have o: "splitlines ''a\<newline>'' = [''a'']" and n: "splitlines ''x'' = [''x'']"
    by code_simp+
  have r: "apply_diff ''a\<newline>'' ''x'' = ''a''"
    by code_simp
  show ?thesis by (simp add: o n r py_slice_def)
qed





section \<open>Claims about the marker segmenter\<close>

text \<open>
  C7 (marker-free segmentation), as the code has it. For a body that is not empty and
  none of whose lines, trimmed, is one of the seven markers, \<open>parse_code_block\<close> returns
  exactly one segment, \<open>('replace', text, 3)\<close>, whose text is the \<open>\n\<close>-join of the
  body's lines. The text is the body itself when the body's only line boundary is \<open>\n\<close>
  and it does not end with one, and so it is the trimmed body when the body is trimmed
  and has no other line boundary. An empty body gives no segment, and a body with
  \<open>\r\n\<close> gives a text with \<open>\n\<close> in its place: the counterexample.
\<close>

theorem parse_code_block_no_marker:
  assumes "block_content \<noteq> []"
      and "\<forall>l \<in> set (splitlines block_content). strip l \<notin> set context_markers"
  shows "parse_code_block block_content
           = [(''replace'', str_join [LF] (splitlines block_content), 3)] \<and>
         (lf_normal block_content \<longrightarrow>
            parse_code_block block_content = [(''replace'', block_content, 3)]) \<and>
         (strip block_content = block_content \<and>
          list_all (\<lambda>c. \<not> is_linebreak c \<or> c = LF) block_content \<longrightarrow>
            parse_code_block block_content = [(''replace'', strip block_content, 3)])"
proof -
  have ne: "splitlines block_content \<noteq> []"
    using assms(1) by (simp add: splitlines_eq_Nil_iff)
  have a: "parse_code_block block_content
             = [(''replace'', str_join [LF] (splitlines block_content), 3)]"
    using ne by (simp add: parse_code_block_def parse_loop_no_marker [OF assms(2)])
  have b: "parse_code_block block_content = [(''replace'', block_content, 3)]"
    if "lf_normal block_content"
    using a that by (simp add: join_splitlines)
  have "lf_normal block_content"
    if "strip block_content = block_content"
      and "list_all (\<lambda>c. \<not> is_linebreak c \<or> c = LF) block_content"
    using that strip_fixed_last [of block_content] LF_is_space
    by (auto simp: lf_normal_def)
  with a b show ?thesis by auto
qed

theorem parse_code_block_no_marker_witness:
  "parse_code_block ''x = 1\<newline>  y = 2'' = [(''replace'', ''x = 1\<newline>  y = 2'', 3)]"
proof -
  have sl: "splitlines ''x = 1\<newline>  y = 2'' = [''x = 1'', ''  y = 2'']"
    by code_simp
  have st: "strip ''x = 1'' = ''x = 1''" "strip ''  y = 2'' = ''y = 2''"
    by code_simp+
  have nm: "\<forall>l \<in> set (splitlines ''x = 1\<newline>  y = 2''). strip l \<notin> set context_markers"
    by (simp add: sl st context_markers_def)
  have "lf_normal ''x = 1\<newline>  y = 2''"
    by (simp add: lf_normal_def is_linebreak_def LF_def)
  with parse_code_block_no_marker [OF _ nm] show ?thesis by blast
qed

theorem parse_code_block_no_marker_counterexample:
  "\<not> (\<exists>l \<in> set (splitlines []). strip l \<in> set context_markers) \<and>
   parse_code_block [] = [] \<and>
   \<not> (\<exists>l \<in> set (splitlines [CHR ''a'', CR, LF, CHR ''b'']). strip l \<in> set context_markers) \<and>
   strip [CHR ''a'', CR, LF, CHR ''b''] = [CHR ''a'', CR, LF, CHR ''b''] \<and>
   parse_code_block [CHR ''a'', CR, LF, CHR ''b''] = [(''replace'', ''a\<newline>b'', 3)]"
proof -
  have sl: "splitlines [CHR ''a'', CR, LF, CHR ''b''] = [''a'', ''b'']"
    by code_simp
  have st: "strip ''a'' = ''a''" "strip ''b'' = ''b''"
    "strip [CHR ''a'', CR, LF, CHR ''b''] = [CHR ''a'', CR, LF, CHR ''b'']"
    by code_simp+
  have p1: "parse_code_block [] = []" by code_simp
  have p2: "parse_code_block [CHR ''a'', CR, LF, CHR ''b''] = [(''replace'', ''a\<newline>b'', 3)]"
    by code_simp
  show ?thesis
    by (simp add: splitlines_Nil sl st p1 p2 context_markers_def)
qed


section \<open>Claims about the block extractor\<close>

text \<open>
  C8 (fence recognition), as the code has it. The pattern has no line anchor: every
  fragment that \<open>extract_code_blocks\<close> yields comes from a region of the text that opens
  with three backticks, wherever in a line they stand, followed by the language, the
  optional colon and path, a newline, the body and three closing backticks; the
  fragment's language is a non-empty run of word characters, its path, when it has one,
  is not empty, and its content is the trimmed body. A text with no three consecutive
  backticks yields no fragment. The counterexample is a text whose two fences are both mid-line
  and which yields a fragment.
\<close>

theorem extract_code_blocks_fenced:
  "(b \<in> set (extract_code_blocks ai_output) \<longrightarrow>
      (\<exists>pre body post.
          ai_output = pre @ header (language b) (filepath b) @ body @ fence @ post \<and>
          content b = strip body) \<and>
      language b \<noteq> [] \<and> list_all is_word (language b) \<and> filepath b \<noteq> Some []) \<and>
   (\<not> sublist fence ai_output \<longrightarrow> extract_code_blocks ai_output = [])"
proof -
  have a: "(\<exists>pre body post.
          ai_output = pre @ header (language b) (filepath b) @ body @ fence @ post \<and>
          content b = strip body) \<and>
      language b \<noteq> [] \<and> list_all is_word (language b) \<and> filepath b \<noteq> Some []"
    if "b \<in> set (extract_code_blocks ai_output)" for b
    using extract_code_blocks_sound [OF that] .
  have "extract_code_blocks ai_output = []" if no: "\<not> sublist fence ai_output"
  proof (rule ccontr)
    assume "extract_code_blocks ai_output \<noteq> []"
    then obtain b where "b \<in> set (extract_code_blocks ai_output)"
      by (cases "extract_code_blocks ai_output") auto
    from a [OF this] obtain pre body post where
      "ai_output = pre @ header (language b) (filepath b) @ body @ fence @ post" by blast
    then have "ai_output = pre @ fence @ (language b
        @ (case filepath b of None \<Rightarrow> [] | Some p \<Rightarrow> CHR '':'' # p) @ [LF] @ body @ fence @ post)"
      by (simp add: header_def)
    then have "sublist fence ai_output"
      by (metis sublist_appendI)
    with no show False by simp
  qed
  with a show ?thesis by blast
qed

theorem extract_code_blocks_fenced_witness:
  "extract_code_blocks ''see ```py\<newline>a``` ok''
     = [\<lparr>language = ''py'', filepath = None, content = ''a''\<rparr>] \<and>
   (\<exists>pre body post. ''see ```py\<newline>a``` ok'' = pre @ header ''py'' None @ body @ fence @ post \<and>
       ''a'' = strip body) \<and>
   list_all is_word ''py'' \<and>
   extract_code_blocks ''plain `` text'' = []"
proof -
  let ?b = "\<lparr>language = ''py'', filepath = None, content = ''a''\<rparr>"
  have e: "extract_code_blocks ''see ```py\<newline>a``` ok'' = [?b]"
    by code_simp
  then have "?b \<in> set (extract_code_blocks ''see ```py\<newline>a``` ok'')" by simp
  with extract_code_blocks_fenced [of ?b "''see ```py\<newline>a``` ok''"]
  have 1: "(\<exists>pre body post. ''see ```py\<newline>a``` ok'' = pre @ header ''py'' None @ body @ fence @ post \<and>
       ''a'' = strip body) \<and> list_all is_word ''py''" by simp
  have "\<not> sublist fence ''plain `` text''" by code_simp
  with extract_code_blocks_fenced [of _ "''plain `` text''"]
  have 2: "extract_code_blocks ''plain `` text'' = []" by simp
  from e 1 2 show ?thesis by simp
qed

theorem extract_code_blocks_anchor_counterexample:
  "\<not> prefix fence ''x```py\<newline>a```'' \<and>
   \<not> sublist (LF # fence) ''x```py\<newline>a```'' \<and>
   extract_code_blocks ''x```py\<newline>a```''
     = [\<lparr>language = ''py'', filepath = None, content = ''a''\<rparr>]"
proof -
  have "\<not> prefix fence ''x```py\<newline>a```''" by code_simp
  moreover have "\<not> sublist (LF # fence) ''x```py\<newline>a```''" by code_simp
  moreover have "extract_code_blocks ''x```py\<newline>a```''
     = [\<lparr>language = ''py'', filepath = None, content = ''a''\<rparr>]" by code_simp
  ultimately show ?thesis by simp
qed


section \<open>Claims about the file reconciler\<close>

text \<open>
  C2 (end-to-end scenario), evaluated on the code. The output with the single block
  \<open>python:f.py\<close> holding \<open>print('Hello, World!')\<close>, processed against the map in which
  \<open>f.py\<close> is \<open>print('Hello')\<close>, returns the map unchanged: the segment's only line is not
  a line of the file, so \<open>apply_diff\<close> finds no window and splices nothing.
\<close>

theorem process_ai_output_hello_world:
  "process_ai_output ''```python:f.py\<newline>print('Hello, World!')\<newline>```''
     [''f.py'' \<mapsto> ''print('Hello')''] = [''f.py'' \<mapsto> ''print('Hello')''] \<and>
   apply_diff ''print('Hello')'' ''print('Hello, World!')'' = ''print('Hello')''"
proof -
  have e: "extract_code_blocks ''```python:f.py\<newline>print('Hello, World!')\<newline>```''
             = [\<lparr>language = ''python'', filepath = Some ''f.py'',
                 content = ''print('Hello, World!')''\<rparr>]"
    by code_simp
  have p: "parse_code_block ''print('Hello, World!')''
             = [(''replace'', ''print('Hello, World!')'', 3)]"
    by code_simp
  have a: "apply_diff ''print('Hello')'' ''print('Hello, World!')'' = ''print('Hello')''"
    by code_simp
  show ?thesis
    by (simp add: process_ai_output_def e process_block_def p a)
qed


text \<open>
  C5 (the reconciler does not mutate its input). On a store of dictionary objects,
  \<open>process_ai_output\<close> returns a reference to a newly allocated dictionary, every
  dictionary that was in the store before the call, the one passed in among them, holds
  afterwards what it held before, and the new dictionary holds the result.
\<close>

theorem process_ai_output_store_pure:
  assumes "files_ref < length h"
      and "process_ai_output_store ai_output files_ref h = (r, h')"
  shows "r = length h \<and> length h' = Suc (length h) \<and>
         (\<forall>a<length h. h' ! a = h ! a) \<and>
         h' ! files_ref = h ! files_ref \<and>
         h' ! r = process_ai_output ai_output (h ! files_ref)"
proof -
  let ?h1 = "h @ [h ! files_ref]"
  let ?out = "foldl process_block (h ! files_ref) (extract_code_blocks ai_output)"
  have "foldl (\<lambda>h' block. h'[length h := process_block (h' ! length h) block]) ?h1
          (extract_code_blocks ai_output) = ?h1[length h := foldl process_block (?h1 ! length h) (extract_code_blocks ai_output)]"
    by (rule store_loop) simp
  then have "process_ai_output_store ai_output files_ref h = (length h, h @ [?out])"
    by (simp add: process_ai_output_store_def dict_copy_def)
  with assms(2) have "r = length h" and "h' = h @ [?out]" by simp_all
  with assms(1) show ?thesis
    by (simp add: process_ai_output_def nth_append)
qed

theorem process_ai_output_store_pure_witness:
  "fst (process_ai_output_store ''```py:a.py\<newline>x\<newline>y\<newline>```'' 0 [[''a.py'' \<mapsto> ''x'']]) = 1 \<and>
   snd (process_ai_output_store ''```py:a.py\<newline>x\<newline>y\<newline>```'' 0 [[''a.py'' \<mapsto> ''x'']]) ! 0
     = [''a.py'' \<mapsto> ''x''] \<and>
   (snd (process_ai_output_store ''```py:a.py\<newline>x\<newline>y\<newline>```'' 0 [[''a.py'' \<mapsto> ''x'']]) ! 1)
     ''a.py'' = Some ''x\<newline>y''"
proof -
  let ?raw = "''```py:a.py\<newline>x\<newline>y\<newline>```''"
  let ?res = "process_ai_output_store ?raw 0 [[''a.py'' \<mapsto> ''x'']]"
  have p: "process_ai_output ?raw [''a.py'' \<mapsto> ''x''] ''a.py'' = Some ''x\<newline>y''"
    by code_simp
  have "?res = (fst ?res, snd ?res)" by simp
  then have t: "fst ?res = length [[''a.py'' \<mapsto> ''x'']] \<and>
      length (snd ?res) = Suc (length [[''a.py'' \<mapsto> ''x'']]) \<and>
      (\<forall>a<length [[''a.py'' \<mapsto> ''x'']]. snd ?res ! a = [[''a.py'' \<mapsto> ''x'']] ! a) \<and>
      snd ?res ! 0 = [[''a.py'' \<mapsto> ''x'']] ! 0 \<and>
      snd ?res ! fst ?res = process_ai_output ?raw ([[''a.py'' \<mapsto> ''x'']] ! 0)"
    by (intro process_ai_output_store_pure) simp_all
  from t have r: "fst ?res = 1" by simp
  from t have old: "snd ?res ! 0 = [''a.py'' \<mapsto> ''x'']" by simp
  from t have "snd ?res ! fst ?res = process_ai_output ?raw ([[''a.py'' \<mapsto> ''x'']] ! 0)"
    by blast
  then have "snd ?res ! 1 = process_ai_output ?raw [''a.py'' \<mapsto> ''x'']"
    by (simp only: r nth_Cons_0)
  then have "(snd ?res ! 1) ''a.py'' = Some ''x\<newline>y''"
    by (simp only: p)
  with r old show ?thesis by simp
qed


text \<open>
  C6 (new-file path). When the loop reaches an extracted block whose path is not a key of
  the current file map, it stores the block's content under that path as it is, without
  segmenting or merging it; the blocks that follow work on that map, and when none of
  them has the same path the returned map holds the content under the path.
\<close>

theorem process_ai_output_new_file:
  assumes "extract_code_blocks ai_output = pre @ block # post"
      and "filepath block = Some path"
      and "foldl process_block files_in pre path = None"
  shows "foldl process_block files_in (pre @ [block])
           = (foldl process_block files_in pre)(path \<mapsto> content block) \<and>
         process_ai_output ai_output files_in
           = foldl process_block ((foldl process_block files_in pre)(path \<mapsto> content block)) post \<and>
         ((\<forall>b \<in> set post. filepath b \<noteq> Some path) \<longrightarrow>
            process_ai_output ai_output files_in path = Some (content block))"
proof -
  have "block \<in> set (extract_code_blocks ai_output)" using assms(1) by simp
  from extract_code_blocks_sound [OF this] assms(2) have "path \<noteq> []" by auto
  with assms(2,3) have a: "foldl process_block files_in (pre @ [block])
           = (foldl process_block files_in pre)(path \<mapsto> content block)"
    by (simp add: process_block_new)
  then have b: "process_ai_output ai_output files_in
           = foldl process_block ((foldl process_block files_in pre)(path \<mapsto> content block)) post"
    by (simp add: process_ai_output_def assms(1))
  have "process_ai_output ai_output files_in path = Some (content block)"
    if "\<forall>b \<in> set post. filepath b \<noteq> Some path"
    by (simp add: b process_blocks_other [OF that])
  with a b show ?thesis by blast
qed

theorem process_ai_output_new_file_witness:
  "process_ai_output ''```py:a.py\<newline>x\<newline>```  ```py:new.py\<newline># ...\<newline>print(1)\<newline>```''
     [''a.py'' \<mapsto> ''x''] ''new.py'' = Some ''# ...\<newline>print(1)''"
proof -
  let ?raw = "''```py:a.py\<newline>x\<newline>```  ```py:new.py\<newline># ...\<newline>print(1)\<newline>```''"
  let ?b1 = "\<lparr>language = ''py'', filepath = Some ''a.py'', content = ''x''\<rparr>"
  let ?b2 = "\<lparr>language = ''py'', filepath = Some ''new.py'', content = ''# ...\<newline>print(1)''\<rparr>"
  have e: "extract_code_blocks ?raw = [?b1] @ ?b2 # []"
    by code_simp
  have f: "filepath ?b2 = Some ''new.py''" by simp
  have n: "foldl process_block [''a.py'' \<mapsto> ''x''] [?b1] ''new.py'' = None"
    by (simp add: process_block_def)
  from process_ai_output_new_file [OF e f n] show ?thesis by simp
qed


text \<open>
  C9 (untargeted entries are preserved). Every key of the input map is a key of the map
  that \<open>process_ai_output\<close> returns, and a path that is the path of no extracted block has
  in the result what it has in the input.
\<close>

theorem process_ai_output_untargeted:
  "dom files_in \<subseteq> dom (process_ai_output ai_output files_in) \<and>
   (\<forall>p. (\<forall>b \<in> set (extract_code_blocks ai_output). filepath b \<noteq> Some p) \<longrightarrow>
        process_ai_output ai_output files_in p = files_in p)"
  by (simp add: process_ai_output_def process_blocks_dom process_blocks_other)

theorem process_ai_output_untargeted_witness:
  "''a.py'' \<in> dom (process_ai_output ''```py:a.py\<newline>x\<newline>y\<newline>```''
                     [''a.py'' \<mapsto> ''x'', ''b.py'' \<mapsto> ''z'']) \<and>
   process_ai_output ''```py:a.py\<newline>x\<newline>y\<newline>```''
     [''a.py'' \<mapsto> ''x'', ''b.py'' \<mapsto> ''z''] ''b.py'' = Some ''z''"
proof -
  let ?raw = "''```py:a.py\<newline>x\<newline>y\<newline>```''"
  let ?m = "[''a.py'' \<mapsto> ''x'', ''b.py'' \<mapsto> ''z'']"
  have e: "extract_code_blocks ?raw
             = [\<lparr>language = ''py'', filepath = Some ''a.py'', content = ''x\<newline>y''\<rparr>]"
    by code_simp
  have "\<forall>b \<in> set (extract_code_blocks ?raw). filepath b \<noteq> Some ''b.py''"
    by (simp add: e)
  with process_ai_output_untargeted [of ?m ?raw]
  have "dom ?m \<subseteq> dom (process_ai_output ?raw ?m)"
    and "process_ai_output ?raw ?m ''b.py'' = ?m ''b.py''"
    by blast+
  then show ?thesis by auto
qed


end
